theory Spec2Isabelle
  imports Main "HOL-Library.Word"
begin

section \<open>Data model (db_mysql.go, monitor.go, config.go)\<close>

text \<open>
  Go's \<open>uint64\<close> is a 64-bit word: addition, subtraction and multiplication wrap around,
  comparisons are unsigned.
\<close>

type_synonym uint64 = "64 word"

type_synonym snapKey = string

text \<open>\<open>sql.NullString\<close>: a string and a flag telling whether the column was non-NULL.\<close>

record NullString =
  String :: string
  Valid :: bool

text \<open>The zero value Go gives to a \<open>sql.NullString\<close> field a struct literal leaves out.\<close>

definition zeroNullString :: NullString where
  "zeroNullString = \<lparr>String = [], Valid = False\<rparr>"

record digestStat =
  Digest :: string
  DigestText :: string
  QuerySample :: NullString
  CountStar :: uint64
  SumRowsExam :: uint64
  SumRowsSent :: uint64
  SumRowsAff :: uint64

type_synonym snapshot = "snapKey \<rightharpoonup> digestStat"

text \<open>
  The \<open>offender\<close> struct of monitor.go. Its first field is \<open>Digest\<close> in the source; it is
  \<open>ODigest\<close> here because \<open>digestStat\<close> already has a field of that name.
\<close>

record offender =
  ODigest :: string
  Text :: string
  BytesRead :: uint64
  BytesWrite :: uint64
  RowsExamined :: uint64
  RowsSent :: uint64
  Count :: uint64

text \<open>The four getters of \<open>Config\<close> that \<open>monitor.Run\<close> reads inside its loop.\<close>

record config =
  readThreshold :: uint64
  writeThreshold :: uint64
  avgRowRead :: uint64
  avgRowSent :: uint64

section \<open>The snapshot differ (deltaSnap)\<close>

text \<open>
  \<open>deltaSnap\<close> ranges over the keys of \<open>newSnap\<close> and writes \<open>out[k]\<close> for the key it is
  visiting only, so the resulting map is given key by key. The struct literals of the source
  leave \<open>QuerySample\<close> and \<open>SumRowsAff\<close> out: they get Go's zero values.
\<close>

definition deltaSnap :: "snapshot \<Rightarrow> snapshot \<Rightarrow> snapshot" where
  "deltaSnap oldSnap newSnap = (\<lambda>k.
     case newSnap k of
       None \<Rightarrow> None
     | Some newv \<Rightarrow>
         (case oldSnap k of
            Some oldv \<Rightarrow>
              (let dCount = (if CountStar newv \<ge> CountStar oldv
                             then CountStar newv - CountStar oldv else 0);
                   dRowsExam = (if SumRowsExam newv \<ge> SumRowsExam oldv
                                then SumRowsExam newv - SumRowsExam oldv else 0);
                   dRowsSent = (if SumRowsSent newv \<ge> SumRowsSent oldv
                                then SumRowsSent newv - SumRowsSent oldv else 0)
               in if dCount = 0 \<and> dRowsExam = 0 \<and> dRowsSent = 0 then None
                  else Some \<lparr>Digest = Digest newv, DigestText = DigestText newv,
                             QuerySample = zeroNullString, CountStar = dCount,
                             SumRowsExam = dRowsExam, SumRowsSent = dRowsSent,
                             SumRowsAff = 0\<rparr>)
          | None \<Rightarrow>
              Some \<lparr>Digest = Digest newv, DigestText = DigestText newv,
                    QuerySample = zeroNullString, CountStar = CountStar newv,
                    SumRowsExam = SumRowsExam newv, SumRowsSent = SumRowsSent newv,
                    SumRowsAff = 0\<rparr>))"

section \<open>The monitor loop (monitor.Run)\<close>

text \<open>What \<open>Run\<close> does to the outside: calls on the reporter, on the logger and on the DB.\<close>

datatype effect =
  ReporterStartup config
  | ReporterAlert offender uint64 uint64
  | ReporterShutdown
  | LogError string
  | LogInfo string

text \<open>
  The body of \<open>for _, d := range delta\<close>, lines 83 to 104: the reporter calls one delta
  entry causes. The two products are \<open>uint64\<close> multiplications.
\<close>

definition alertBody :: "config \<Rightarrow> digestStat \<Rightarrow> effect list" where
  "alertBody cfg d =
     (let br = SumRowsExam d * avgRowRead cfg;
          bw = SumRowsSent d * avgRowSent cfg
      in if br = 0 \<and> bw = 0 then []
         else
           (let text = (if Valid (QuerySample d) \<and> String (QuerySample d) \<noteq> []
                        then String (QuerySample d) else DigestText d);
                off = \<lparr>ODigest = Digest d, Text = text, BytesRead = br, BytesWrite = bw,
                     RowsExamined = SumRowsExam d, RowsSent = SumRowsSent d,
                     Count = CountStar d\<rparr>
            in if br \<ge> readThreshold cfg \<or> bw \<ge> writeThreshold cfg
               then [ReporterAlert off (readThreshold cfg) (writeThreshold cfg)]
               else []))"

text \<open>
  The \<open>range\<close> loop over the delta map. Go visits every key of a map once, in an order it
  does not specify; \<open>ks\<close> is the order of that visit.
\<close>

definition alertLoop :: "config \<Rightarrow> snapshot \<Rightarrow> snapKey list \<Rightarrow> effect list" where
  "alertLoop cfg delta ks =
     concat (map (\<lambda>k. case delta k of None \<Rightarrow> [] | Some d \<Rightarrow> alertBody cfg d) ks)"

type_synonym err = string

text \<open>
  One firing of \<open>ticker.C\<close>, lines 73 to 108: \<open>r\<close> is what \<open>m.db.Snapshot\<close> returned. The
  result is the new value of \<open>prev\<close> and the calls made.
\<close>

definition tick :: "config \<Rightarrow> snapshot \<Rightarrow> err + snapshot \<Rightarrow> snapKey list \<Rightarrow> snapshot \<times> effect list" where
  "tick cfg prev r ks =
     (case r of
        Inl e \<Rightarrow> (prev, [LogError ''fetch snapshot''])
      | Inr cur \<Rightarrow> (cur, alertLoop cfg (deltaSnap prev cur) ks))"

text \<open>The three cases of the \<open>select\<close> in the loop, with what each receives.\<close>

datatype selectCase =
  CtxDone
  | StopSignal
  | TickerC "err + snapshot" "snapKey list"

text \<open>
  The loop at label \<open>loop\<close>, run on the \<open>select\<close> cases that become ready, in order. It
  returns the last value of \<open>prev\<close> and the calls made; when the list ends the loop is
  still waiting.
\<close>

fun runLoop :: "config \<Rightarrow> snapshot \<Rightarrow> selectCase list \<Rightarrow> snapshot \<times> effect list" where
  "runLoop cfg prev [] = (prev, [])"
| "runLoop cfg prev (CtxDone # rest) = (prev, [])"
| "runLoop cfg prev (StopSignal # rest) = (prev, [LogInfo ''shutting down''])"
| "runLoop cfg prev (TickerC r ks # rest) =
     (let (prev', out) = tick cfg prev r ks;
          (final, out') = runLoop cfg prev' rest
      in (final, out @ out'))"

text \<open>
  Whether the loop is left on these cases: it is once the context is done or a stop signal
  arrives; otherwise it is still waiting in the \<open>select\<close> when they end.
\<close>

fun loopLeft :: "selectCase list \<Rightarrow> bool" where
  "loopLeft [] = False"
| "loopLeft (CtxDone # rest) = True"
| "loopLeft (StopSignal # rest) = True"
| "loopLeft (TickerC r ks # rest) = loopLeft rest"

text \<open>
  \<open>Run\<close> itself: the start-up call, the ping, the initial snapshot, the loop, and, once
  the loop is left, the closing of the DB (\<open>closeErr\<close> is what \<open>m.db.Close\<close> returned) and
  the shutdown call. While the loop is waiting nothing follows its effects.
\<close>

definition Run :: "config \<Rightarrow> err option \<Rightarrow> err + snapshot \<Rightarrow> selectCase list \<Rightarrow> err option \<Rightarrow> effect list" where
  "Run cfg pingErr initial cases closeErr =
     ReporterStartup cfg #
     (case pingErr of
        Some e \<Rightarrow> [LogError ''ping db'']
      | None \<Rightarrow>
          (case initial of
             Inl e \<Rightarrow> [LogError ''initial snapshot failed'']
           | Inr prev \<Rightarrow>
               snd (runLoop cfg prev cases) @
               (if loopLeft cases
                then (case closeErr of Some e \<Rightarrow> [LogError ''db close''] | None \<Rightarrow> []) @
                     [ReporterShutdown]
                else [])))"

section \<open>The ring buffer (stream.go, logRing)\<close>

text \<open>The run-time panics the modelled code can raise.\<close>

datatype panic =
  MakeSliceCapOutOfRange
  | SliceBoundsOutOfRange
  | SendOnClosedChannel
  | CloseOfClosedChannel
  | CloseOfNilChannel

text \<open>
  Go's \<open>int\<close> on a 64-bit platform: a 64-bit word read as two's complement (\<open>sint\<close>).
\<close>

type_synonym goInt = "64 word"

record logRing =
  cap :: goInt
  data :: "string list"
  base :: uint64
  "next" :: uint64

text \<open>
  The allocator's bound on linux/amd64, the platform the Dockerfile builds for: \<open>2 ^ 48\<close>
  bytes. A string header takes 16 bytes.
\<close>

definition maxAlloc :: int where
  "maxAlloc = 2 ^ 48"

text \<open>
  \<open>make([]string, 0, capacity)\<close> panics (makeslice: cap out of range) on a negative
  capacity and on one whose 16-byte elements exceed the allocator's bound. Below the bound
  the model takes the memory to be there.
\<close>

definition newLogRing :: "goInt \<Rightarrow> panic + logRing" where
  "newLogRing capacity =
     (if sint capacity < 0 \<or> 16 * sint capacity > maxAlloc then Inl MakeSliceCapOutOfRange
      else Inr \<lparr>cap = capacity, data = [], base = 0, next = 0\<rparr>)"

text \<open>
  \<open>r.data[1:]\<close> is the tail of the slice; on an empty slice it panics (slice bounds out of
  range \<open>[1:0]\<close>).
\<close>

definition Append :: "logRing \<Rightarrow> string \<Rightarrow> panic + logRing" where
  "Append r s =
     (if int (length (data r)) = sint (cap r)
      then (case data r of
              [] \<Rightarrow> Inl SliceBoundsOutOfRange
            | x # rest \<Rightarrow> Inr (r\<lparr>data := rest @ [s], base := base r + 1, next := next r + 1\<rparr>))
      else Inr (r\<lparr>data := data r @ [s], next := next r + 1\<rparr>))"

text \<open>Appending several lines one after the other; the first panic ends the run.\<close>

fun Appends :: "logRing \<Rightarrow> string list \<Rightarrow> panic + logRing" where
  "Appends r [] = Inr r"
| "Appends r (s # ss) = (case Append r s of Inl p \<Rightarrow> Inl p | Inr r' \<Rightarrow> Appends r' ss)"

text \<open>
  \<open>GetFrom\<close> does not change the ring. \<open>int(seq - r.base)\<close> converts the \<open>uint64\<close>
  difference to \<open>int\<close>, which is \<open>sint\<close>.
\<close>

definition GetFrom :: "logRing \<Rightarrow> uint64 \<Rightarrow> string list \<times> uint64" where
  "GetFrom r seq0 =
     (let seq = (if seq0 < base r then base r else seq0)
      in if seq > next r then ([], next r)
         else
           (let startIdx0 = sint (seq - base r);
                startIdx = (if startIdx0 < 0 \<or> startIdx0 > int (length (data r))
                            then int (length (data r)) else startIdx0)
            in (drop (nat startIdx) (data r), next r)))"

definition Head :: "logRing \<Rightarrow> uint64" where
  "Head r = next r"

section \<open>The broadcaster (stream.go, sseBroadcaster)\<close>

text \<open>
  A buffered channel of strings: what it holds, its capacity, and whether it was closed.
  Channels are references; \<open>chans\<close> maps every reference made so far to its channel, and
  \<open>made\<close> counts them, so that \<open>make\<close> returns a reference no one holds yet.
\<close>

record chanState =
  buf :: "string list"
  chanCap :: nat
  closed :: bool

type_synonym chanRef = nat

text \<open>
  \<open>subs\<close> is the key set of \<open>b.subs\<close>, in the order \<open>range\<close> visits it; the mutex makes
  every method run alone, so a method is a function on this state.
\<close>

record sseBroadcaster =
  subs :: "chanRef list"
  chans :: "chanRef \<rightharpoonup> chanState"
  made :: nat

definition NewLogStreamBroadcaster :: sseBroadcaster where
  "NewLogStreamBroadcaster = \<lparr>subs = [], chans = Map.empty, made = 0\<rparr>"

text \<open>
  \<open>Subscribe\<close> returns the channel and the state; the unsubscribe function it returns in
  the source is the closure \<open>unsubscribe ch\<close> below.
\<close>

definition Subscribe :: "sseBroadcaster \<Rightarrow> chanRef \<times> sseBroadcaster" where
  "Subscribe b =
     (let ch = made b
      in (ch, b\<lparr>subs := List.insert ch (subs b),
                chans := (chans b)(ch \<mapsto> \<lparr>buf = [], chanCap = 256, closed = False\<rparr>),
                made := Suc (made b)\<rparr>))"

text \<open>\<open>close(ch)\<close>: panics on a nil channel and on a channel closed before.\<close>

definition closeChan :: "chanRef \<Rightarrow> (chanRef \<rightharpoonup> chanState) \<Rightarrow> panic + (chanRef \<rightharpoonup> chanState)" where
  "closeChan ch h =
     (case h ch of
        None \<Rightarrow> Inl CloseOfNilChannel
      | Some c \<Rightarrow> if closed c then Inl CloseOfClosedChannel else Inr (h(ch \<mapsto> c\<lparr>closed := True\<rparr>)))"

definition unsubscribe :: "chanRef \<Rightarrow> sseBroadcaster \<Rightarrow> panic + sseBroadcaster" where
  "unsubscribe ch b =
     (if ch \<in> set (subs b)
      then (case closeChan ch (chans b) of
              Inl p \<Rightarrow> Inl p
            | Inr h \<Rightarrow> Inr (b\<lparr>subs := removeAll ch (subs b), chans := h\<rparr>))
      else Inr b)"

text \<open>Calling the unsubscribe function \<open>n\<close> times in a row.\<close>

fun unsubscribeTimes :: "nat \<Rightarrow> chanRef \<Rightarrow> sseBroadcaster \<Rightarrow> panic + sseBroadcaster" where
  "unsubscribeTimes 0 ch b = Inr b"
| "unsubscribeTimes (Suc n) ch b =
     (case unsubscribe ch b of Inl p \<Rightarrow> Inl p | Inr b' \<Rightarrow> unsubscribeTimes n ch b')"

text \<open>
  \<open>select { case ch <- message: default: }\<close>: a send on a closed channel panics, a send on
  a channel with room stores the message, and the default case drops it otherwise (a nil
  channel is never ready).
\<close>

definition trySend :: "chanRef \<Rightarrow> string \<Rightarrow> (chanRef \<rightharpoonup> chanState) \<Rightarrow> panic + (chanRef \<rightharpoonup> chanState)" where
  "trySend ch message h =
     (case h ch of
        None \<Rightarrow> Inr h
      | Some c \<Rightarrow>
          if closed c then Inl SendOnClosedChannel
          else if length (buf c) < chanCap c then Inr (h(ch \<mapsto> c\<lparr>buf := buf c @ [message]\<rparr>))
          else Inr h)"

fun broadcastLoop :: "string \<Rightarrow> chanRef list \<Rightarrow> (chanRef \<rightharpoonup> chanState) \<Rightarrow> panic + (chanRef \<rightharpoonup> chanState)" where
  "broadcastLoop message [] h = Inr h"
| "broadcastLoop message (ch # rest) h =
     (case trySend ch message h of Inl p \<Rightarrow> Inl p | Inr h' \<Rightarrow> broadcastLoop message rest h')"

definition Broadcast :: "sseBroadcaster \<Rightarrow> string \<Rightarrow> panic + sseBroadcaster" where
  "Broadcast b message =
     (case broadcastLoop message (subs b) (chans b) of
        Inl p \<Rightarrow> Inl p
      | Inr h \<Rightarrow> Inr (b\<lparr>chans := h\<rparr>))"

section \<open>Terms of the specification\<close>

text \<open>
  The estimates of the specification's alerter: rows examined times the average bytes per
  row examined, rows sent times the average bytes per row sent. They are products of
  non-negative integers, so they are natural numbers here, not 64-bit words.
\<close>

definition estimatedBytesRead :: "config \<Rightarrow> digestStat \<Rightarrow> nat" where
  "estimatedBytesRead cfg d = unat (SumRowsExam d) * unat (avgRowRead cfg)"

definition estimatedBytesWritten :: "config \<Rightarrow> digestStat \<Rightarrow> nat" where
  "estimatedBytesWritten cfg d = unat (SumRowsSent d) * unat (avgRowSent cfg)"

text \<open>Both estimates are below \<open>2 ^ 64\<close>: a \<open>uint64\<close> holds them.\<close>

definition estimatesFit :: "config \<Rightarrow> digestStat \<Rightarrow> bool" where
  "estimatesFit cfg d \<longleftrightarrow>
     estimatedBytesRead cfg d < 2 ^ 64 \<and> estimatedBytesWritten cfg d < 2 ^ 64"

text \<open>
  The display text of the specification: the sample text when the source captured one
  (non-null and non-empty), the normalized text otherwise.
\<close>

definition displayText :: "digestStat \<Rightarrow> string" where
  "displayText d =
     (if Valid (QuerySample d) \<and> String (QuerySample d) \<noteq> [] then String (QuerySample d)
      else DigestText d)"

text \<open>The fully populated offender of a delta entry: all seven fields.\<close>

definition fullOffender :: "config \<Rightarrow> digestStat \<Rightarrow> offender" where
  "fullOffender cfg d =
     \<lparr>ODigest = Digest d, Text = displayText d,
      BytesRead = of_nat (estimatedBytesRead cfg d),
      BytesWrite = of_nat (estimatedBytesWritten cfg d),
      RowsExamined = SumRowsExam d, RowsSent = SumRowsSent d, Count = CountStar d\<rparr>"

text \<open>The decision as the specification words it: one threshold or the other is reached.\<close>

definition thresholdReached :: "config \<Rightarrow> digestStat \<Rightarrow> bool" where
  "thresholdReached cfg d \<longleftrightarrow>
     estimatedBytesRead cfg d \<ge> unat (readThreshold cfg) \<or>
     estimatedBytesWritten cfg d \<ge> unat (writeThreshold cfg)"

text \<open>The decision with the guard of the loop: an entry with both estimates zero is skipped.\<close>

definition alertFires :: "config \<Rightarrow> digestStat \<Rightarrow> bool" where
  "alertFires cfg d \<longleftrightarrow>
     (estimatedBytesRead cfg d \<noteq> 0 \<or> estimatedBytesWritten cfg d \<noteq> 0) \<and> thresholdReached cfg d"

text \<open>
  The invariant of the ring buffer: the retained lines number \<open>next - base\<close> (a \<open>uint64\<close>
  difference) and are at most the capacity.
\<close>

definition ringInv :: "logRing \<Rightarrow> bool" where
  "ringInv r \<longleftrightarrow>
     length (data r) = unat (next r - base r) \<and> int (length (data r)) \<le> sint (cap r)"

text \<open>
  The broadcaster between two method calls: every registered channel appears once, was
  made by \<open>Subscribe\<close> and is open (only \<open>unsubscribe\<close> closes one, after removing it).
\<close>

definition registryInv :: "sseBroadcaster \<Rightarrow> bool" where
  "registryInv b \<longleftrightarrow>
     distinct (subs b) \<and>
     list_all (\<lambda>ch. ch < made b \<and> (case chans b ch of None \<Rightarrow> False | Some c \<Rightarrow> \<not> closed c)) (subs b)"

section \<open>Concrete inputs\<close>

definition cfg1MiB :: config where
  "cfg1MiB = \<lparr>readThreshold = 1048576, writeThreshold = 1048576, avgRowRead = 200, avgRowSent = 200\<rparr>"

definition cfgZeroRead :: config where
  "cfgZeroRead = \<lparr>readThreshold = 0, writeThreshold = 1048576, avgRowRead = 200, avgRowSent = 200\<rparr>"

definition statHeavy :: digestStat where
  "statHeavy = \<lparr>Digest = ''d1'', DigestText = ''SELECT * FROM t WHERE a = ?'',
     QuerySample = \<lparr>String = ''SELECT * FROM t WHERE a = 42'', Valid = True\<rparr>,
     CountStar = 3, SumRowsExam = 5900, SumRowsSent = 0, SumRowsAff = 0\<rparr>"

definition statIdle :: digestStat where
  "statIdle = \<lparr>Digest = ''d2'', DigestText = ''SET NAMES ?'', QuerySample = zeroNullString,
     CountStar = 0, SumRowsExam = 0, SumRowsSent = 0, SumRowsAff = 0\<rparr>"

definition statSet :: digestStat where
  "statSet = \<lparr>Digest = ''d2'', DigestText = ''SET NAMES ?'', QuerySample = zeroNullString,
     CountStar = 1, SumRowsExam = 0, SumRowsSent = 0, SumRowsAff = 0\<rparr>"

definition cfgAvg2 :: config where
  "cfgAvg2 = \<lparr>readThreshold = 1048576, writeThreshold = 1048576, avgRowRead = 2, avgRowSent = 2\<rparr>"

definition statHuge :: digestStat where
  "statHuge = \<lparr>Digest = ''d4'', DigestText = ''SELECT ?'', QuerySample = zeroNullString,
     CountStar = 1, SumRowsExam = 9223372036854775809, SumRowsSent = 0, SumRowsAff = 0\<rparr>"

definition deltaHeavy :: digestStat where
  "deltaHeavy = \<lparr>Digest = ''d1'', DigestText = ''SELECT * FROM t WHERE a = ?'',
     QuerySample = zeroNullString,
     CountStar = 3, SumRowsExam = 5900, SumRowsSent = 0, SumRowsAff = 0\<rparr>"

definition statBefore :: digestStat where
  "statBefore = \<lparr>Digest = ''d3'', DigestText = ''SELECT ?'', QuerySample = zeroNullString,
     CountStar = 10, SumRowsExam = 700, SumRowsSent = 20, SumRowsAff = 5\<rparr>"

definition statAfter :: digestStat where
  "statAfter = \<lparr>Digest = ''d3'', DigestText = ''SELECT ?'', QuerySample = zeroNullString,
     CountStar = 13, SumRowsExam = 1200, SumRowsSent = 15, SumRowsAff = 9\<rparr>"

definition ringABCD :: logRing where
  "ringABCD = \<lparr>cap = 3, data = [''B'', ''C'', ''D''], base = 1, next = 4\<rparr>"

definition ringZero :: logRing where
  "ringZero = \<lparr>cap = 0, data = [], base = 0, next = 0\<rparr>"

definition chanFull :: chanState where
  "chanFull = \<lparr>buf = [''m1'', ''m2''], chanCap = 2, closed = False\<rparr>"

definition chanRoom :: chanState where
  "chanRoom = \<lparr>buf = [''m1''], chanCap = 2, closed = False\<rparr>"

definition busXY :: sseBroadcaster where
  "busXY = \<lparr>subs = [0, 1], chans = [0 \<mapsto> chanFull, 1 \<mapsto> chanRoom], made = 2\<rparr>"

section \<open>The snapshot differ: results\<close>

lemma deltaSnap_present:
  assumes "newSnap k = Some newv" and "oldSnap k = Some oldv"
  shows "case deltaSnap oldSnap newSnap k of
      None \<Rightarrow>
        unat (CountStar newv) \<le> unat (CountStar oldv) \<and>
        unat (SumRowsExam newv) \<le> unat (SumRowsExam oldv) \<and>
        unat (SumRowsSent newv) \<le> unat (SumRowsSent oldv)
    | Some d \<Rightarrow>
        unat (CountStar d) =
          (if unat (CountStar oldv) \<le> unat (CountStar newv)
           then unat (CountStar newv) - unat (CountStar oldv) else 0) \<and>
        unat (SumRowsExam d) =
          (if unat (SumRowsExam oldv) \<le> unat (SumRowsExam newv)
           then unat (SumRowsExam newv) - unat (SumRowsExam oldv) else 0) \<and>
        unat (SumRowsSent d) =
          (if unat (SumRowsSent oldv) \<le> unat (SumRowsSent newv)
           then unat (SumRowsSent newv) - unat (SumRowsSent oldv) else 0)"
  using assms
  by (auto simp add: deltaSnap_def Let_def word_le_nat_alt unat_sub word_unat_eq_iff
      split: option.splits)

lemma deltaSnap_new_key:
  assumes "newSnap k = Some newv" and "oldSnap k = None"
  shows "deltaSnap oldSnap newSnap k =
    Some \<lparr>Digest = Digest newv, DigestText = DigestText newv, QuerySample = zeroNullString,
          CountStar = CountStar newv, SumRowsExam = SumRowsExam newv,
          SumRowsSent = SumRowsSent newv, SumRowsAff = 0\<rparr>"
  using assms by (simp add: deltaSnap_def)

lemma deltaSnap_erase:
  "deltaSnap (map_option (\<lambda>d. d\<lparr>SumRowsAff := 0\<rparr>) \<circ> oldSnap)
             (map_option (\<lambda>d. d\<lparr>SumRowsAff := 0\<rparr>) \<circ> newSnap) = deltaSnap oldSnap newSnap"
proof
  fix k
  show "deltaSnap (map_option (\<lambda>d. d\<lparr>SumRowsAff := 0\<rparr>) \<circ> oldSnap)
                  (map_option (\<lambda>d. d\<lparr>SumRowsAff := 0\<rparr>) \<circ> newSnap) k = deltaSnap oldSnap newSnap k"
    by (cases "oldSnap k"; cases "newSnap k") (simp_all add: deltaSnap_def)
qed

lemma deltaSnap_rows_affected_irrelevant:
  assumes "map_option (\<lambda>d. d\<lparr>SumRowsAff := 0\<rparr>) \<circ> oldSnap = map_option (\<lambda>d. d\<lparr>SumRowsAff := 0\<rparr>) \<circ> oldSnap'"
      and "map_option (\<lambda>d. d\<lparr>SumRowsAff := 0\<rparr>) \<circ> newSnap = map_option (\<lambda>d. d\<lparr>SumRowsAff := 0\<rparr>) \<circ> newSnap'"
  shows "deltaSnap oldSnap newSnap = deltaSnap oldSnap' newSnap'"
proof -
  have "deltaSnap oldSnap newSnap =
        deltaSnap (map_option (\<lambda>d. d\<lparr>SumRowsAff := 0\<rparr>) \<circ> oldSnap)
                  (map_option (\<lambda>d. d\<lparr>SumRowsAff := 0\<rparr>) \<circ> newSnap)"
    by (simp only: deltaSnap_erase)
  also have "\<dots> = deltaSnap (map_option (\<lambda>d. d\<lparr>SumRowsAff := 0\<rparr>) \<circ> oldSnap')
                         (map_option (\<lambda>d. d\<lparr>SumRowsAff := 0\<rparr>) \<circ> newSnap')"
    by (simp only: assms)
  also have "\<dots> = deltaSnap oldSnap' newSnap'"
    by (simp only: deltaSnap_erase)
  finally show ?thesis .
qed

lemma deltaSnap_rows_affected_zero:
  "deltaSnap oldSnap newSnap k = Some d \<Longrightarrow> SumRowsAff d = 0"
  by (auto simp add: deltaSnap_def Let_def split: option.splits if_splits)

lemma deltaSnap_sample_dropped:
  "deltaSnap oldSnap newSnap k = Some d \<Longrightarrow> QuerySample d = zeroNullString"
  by (auto simp add: deltaSnap_def Let_def split: option.splits if_splits)

text \<open>
  C3, as stated: every key of the delta mapping has a non-zero counter. It fails for a key
  that is new in the current snapshot with all three counters zero: the differ copies the
  entry as it is.
\<close>

theorem deltaSnap_zero_entry_counterexample:
  "deltaSnap Map.empty [''d2'' \<mapsto> statIdle] ''d2'' = Some statIdle \<and>
   CountStar statIdle = 0 \<and> SumRowsExam statIdle = 0 \<and> SumRowsSent statIdle = 0"
  by (simp add: deltaSnap_def statIdle_def)

text \<open>
  C3, amended: among the keys present in the previous snapshot the delta mapping contains
  only keys with non-zero activity: such a key of the result has at least one of the three
  delta counters (count, rows examined, rows sent) non-zero, and a key present in both
  snapshots whose three counters are unchanged is absent.
\<close>

theorem deltaSnap_nonzero_activity:
  "(oldSnap k \<noteq> None \<and> deltaSnap oldSnap newSnap k = Some d \<longrightarrow>
      CountStar d \<noteq> 0 \<or> SumRowsExam d \<noteq> 0 \<or> SumRowsSent d \<noteq> 0) \<and>
   (oldSnap k' = Some ov \<and> newSnap k' = Some nv \<and> CountStar nv = CountStar ov \<and>
      SumRowsExam nv = SumRowsExam ov \<and> SumRowsSent nv = SumRowsSent ov \<longrightarrow>
      deltaSnap oldSnap newSnap k' = None)"
  by (auto simp add: deltaSnap_def Let_def split: option.splits if_splits)

theorem deltaSnap_nonzero_activity_witness:
  "[''d3'' \<mapsto> statBefore, ''d1'' \<mapsto> statHeavy] ''d3'' \<noteq> None \<and>
   deltaSnap [''d3'' \<mapsto> statBefore, ''d1'' \<mapsto> statHeavy] [''d3'' \<mapsto> statAfter, ''d1'' \<mapsto> statHeavy] ''d3'' =
     Some (statAfter\<lparr>CountStar := 3, SumRowsExam := 500, SumRowsSent := 0, SumRowsAff := 0\<rparr>) \<and>
   CountStar (statAfter\<lparr>CountStar := 3, SumRowsExam := 500, SumRowsSent := 0, SumRowsAff := 0\<rparr>) \<noteq> 0 \<and>
   deltaSnap [''d3'' \<mapsto> statBefore, ''d1'' \<mapsto> statHeavy] [''d3'' \<mapsto> statAfter, ''d1'' \<mapsto> statHeavy] ''d1'' = None"
  using deltaSnap_nonzero_activity
    [of "[''d3'' \<mapsto> statBefore, ''d1'' \<mapsto> statHeavy]" "''d3''"
        "[''d3'' \<mapsto> statAfter, ''d1'' \<mapsto> statHeavy]"
        "statAfter\<lparr>CountStar := 3, SumRowsExam := 500, SumRowsSent := 0, SumRowsAff := 0\<rparr>"
        "''d1''" statHeavy statHeavy]
  by (simp add: deltaSnap_def statBefore_def statAfter_def statHeavy_def zeroNullString_def)

text \<open>
  C4: for a key present in both snapshots each delta counter is the current value minus the
  previous one when the current value is at least the previous one, and zero when it is
  smaller (no wrap-around), the key being left out exactly when all three are zero; the
  counters are read as natural numbers, so none is negative. A key absent from the previous
  snapshot and present in the current one yields the entire current values.
\<close>

theorem deltaSnap_clamped:
  "(newSnap k = Some newv \<and> oldSnap k = Some oldv \<longrightarrow>
     (case deltaSnap oldSnap newSnap k of
        None \<Rightarrow>
          unat (CountStar newv) \<le> unat (CountStar oldv) \<and>
          unat (SumRowsExam newv) \<le> unat (SumRowsExam oldv) \<and>
          unat (SumRowsSent newv) \<le> unat (SumRowsSent oldv)
      | Some d \<Rightarrow>
          unat (CountStar d) =
            (if unat (CountStar oldv) \<le> unat (CountStar newv)
             then unat (CountStar newv) - unat (CountStar oldv) else 0) \<and>
          unat (SumRowsExam d) =
            (if unat (SumRowsExam oldv) \<le> unat (SumRowsExam newv)
             then unat (SumRowsExam newv) - unat (SumRowsExam oldv) else 0) \<and>
          unat (SumRowsSent d) =
            (if unat (SumRowsSent oldv) \<le> unat (SumRowsSent newv)
             then unat (SumRowsSent newv) - unat (SumRowsSent oldv) else 0))) \<and>
   (newSnap k' = Some newv' \<and> oldSnap k' = None \<longrightarrow>
     (\<exists>d. deltaSnap oldSnap newSnap k' = Some d \<and> CountStar d = CountStar newv' \<and>
          SumRowsExam d = SumRowsExam newv' \<and> SumRowsSent d = SumRowsSent newv'))"
  using deltaSnap_present [of newSnap k newv oldSnap oldv]
        deltaSnap_new_key [of newSnap k' newv' oldSnap]
  by simp

theorem deltaSnap_clamped_witness:
  "[''d3'' \<mapsto> statAfter, ''d1'' \<mapsto> statHeavy] ''d3'' = Some statAfter \<and>
   [''d3'' \<mapsto> statBefore] ''d3'' = Some statBefore \<and>
   (\<exists>d. deltaSnap [''d3'' \<mapsto> statBefore] [''d3'' \<mapsto> statAfter, ''d1'' \<mapsto> statHeavy] ''d3'' = Some d \<and>
        unat (CountStar d) = 3 \<and> unat (SumRowsExam d) = 500 \<and> unat (SumRowsSent d) = 0) \<and>
   [''d3'' \<mapsto> statAfter, ''d1'' \<mapsto> statHeavy] ''d1'' = Some statHeavy \<and>
   [''d3'' \<mapsto> statBefore] ''d1'' = None \<and>
   (\<exists>d. deltaSnap [''d3'' \<mapsto> statBefore] [''d3'' \<mapsto> statAfter, ''d1'' \<mapsto> statHeavy] ''d1'' = Some d \<and>
        CountStar d = 3 \<and> SumRowsExam d = 5900 \<and> SumRowsSent d = 0)"
  using deltaSnap_clamped
    [of "[''d3'' \<mapsto> statAfter, ''d1'' \<mapsto> statHeavy]" "''d3''" statAfter
        "[''d3'' \<mapsto> statBefore]" statBefore "''d1''" statHeavy]
  by (simp add: deltaSnap_def statBefore_def statAfter_def statHeavy_def)

section \<open>The monitor loop: results\<close>

lemma estimate_words:
  assumes "estimatesFit cfg d"
  shows "unat (SumRowsExam d * avgRowRead cfg) = estimatedBytesRead cfg d"
    and "unat (SumRowsSent d * avgRowSent cfg) = estimatedBytesWritten cfg d"
proof -
  have "unat (SumRowsExam d) * unat (avgRowRead cfg) < 2 ^ LENGTH(64)"
    using assms by (simp add: estimatesFit_def estimatedBytesRead_def)
  then show "unat (SumRowsExam d * avgRowRead cfg) = estimatedBytesRead cfg d"
    by (simp only: unat_mult_lem estimatedBytesRead_def)
  have "unat (SumRowsSent d) * unat (avgRowSent cfg) < 2 ^ LENGTH(64)"
    using assms by (simp add: estimatesFit_def estimatedBytesWritten_def)
  then show "unat (SumRowsSent d * avgRowSent cfg) = estimatedBytesWritten cfg d"
    by (simp only: unat_mult_lem estimatedBytesWritten_def)
qed

lemma fullOffender_words:
  "fullOffender cfg d =
     \<lparr>ODigest = Digest d, Text = displayText d,
      BytesRead = SumRowsExam d * avgRowRead cfg, BytesWrite = SumRowsSent d * avgRowSent cfg,
      RowsExamined = SumRowsExam d, RowsSent = SumRowsSent d, Count = CountStar d\<rparr>"
  by (simp add: fullOffender_def estimatedBytesRead_def estimatedBytesWritten_def)

lemma alertBody_eq:
  assumes "estimatesFit cfg d"
  shows "alertBody cfg d =
     (if alertFires cfg d
      then [ReporterAlert (fullOffender cfg d) (readThreshold cfg) (writeThreshold cfg)]
      else [])"
proof -
  note w = estimate_words [OF assms]
  have z: "SumRowsExam d * avgRowRead cfg = 0 \<longleftrightarrow> estimatedBytesRead cfg d = 0"
    "SumRowsSent d * avgRowSent cfg = 0 \<longleftrightarrow> estimatedBytesWritten cfg d = 0"
    using w by (metis unat_eq_0)+
  have t: "readThreshold cfg \<le> SumRowsExam d * avgRowRead cfg \<longleftrightarrow>
        unat (readThreshold cfg) \<le> estimatedBytesRead cfg d"
    "writeThreshold cfg \<le> SumRowsSent d * avgRowSent cfg \<longleftrightarrow>
        unat (writeThreshold cfg) \<le> estimatedBytesWritten cfg d"
    using w by (simp_all only: word_le_nat_alt)
  have f: "alertFires cfg d \<longleftrightarrow>
      (SumRowsExam d * avgRowRead cfg \<noteq> 0 \<or> SumRowsSent d * avgRowSent cfg \<noteq> 0) \<and>
      (readThreshold cfg \<le> SumRowsExam d * avgRowRead cfg \<or>
       writeThreshold cfg \<le> SumRowsSent d * avgRowSent cfg)"
    by (simp only: alertFires_def thresholdReached_def z t)
  show ?thesis
    unfolding f fullOffender_words
    by (simp add: alertBody_def displayText_def Let_def)
qed

lemma alertLoop_length:
  assumes "\<forall>k d. delta k = Some d \<longrightarrow> estimatesFit cfg d"
  shows "length (alertLoop cfg delta ks) =
   length (filter (\<lambda>k. \<exists>d. delta k = Some d \<and> alertFires cfg d) ks)"
  using assms
  by (induction ks) (auto simp add: alertLoop_def alertBody_eq split: option.splits)

lemma alertLoop_card:
  assumes "distinct ks" and "dom delta \<subseteq> set ks"
    and "\<forall>k d. delta k = Some d \<longrightarrow> estimatesFit cfg d"
  shows "length (alertLoop cfg delta ks) = card {k. \<exists>d. delta k = Some d \<and> alertFires cfg d}"
proof -
  have "{k. \<exists>d. delta k = Some d \<and> alertFires cfg d} \<inter> set ks =
        {k. \<exists>d. delta k = Some d \<and> alertFires cfg d}"
    using assms(2) by auto
  then show ?thesis
    using assms(1) by (simp add: alertLoop_length [OF assms(3)] distinct_length_filter)
qed

lemma alertLoop_source:
  assumes "e \<in> set (alertLoop cfg delta ks)"
  shows "\<exists>k d. k \<in> set ks \<and> delta k = Some d \<and> e \<in> set (alertBody cfg d)"
proof -
  from assms obtain k where k: "k \<in> set ks"
    and e: "e \<in> set (case delta k of None \<Rightarrow> [] | Some d \<Rightarrow> alertBody cfg d)"
    by (auto simp add: alertLoop_def)
  from e obtain d where "delta k = Some d" and "e \<in> set (alertBody cfg d)"
    by (cases "delta k") auto
  with k show ?thesis by blast
qed

lemma alertLoop_member:
  assumes "\<forall>k d. delta k = Some d \<longrightarrow> estimatesFit cfg d"
  shows "e \<in> set (alertLoop cfg delta ks) \<longleftrightarrow>
   (\<exists>k d. k \<in> set ks \<and> delta k = Some d \<and> alertFires cfg d \<and>
          e = ReporterAlert (fullOffender cfg d) (readThreshold cfg) (writeThreshold cfg))"
proof
  assume "e \<in> set (alertLoop cfg delta ks)"
  then obtain k d where k: "k \<in> set ks" and d: "delta k = Some d"
    and e: "e \<in> set (alertBody cfg d)"
    using alertLoop_source by blast
  from d assms have "estimatesFit cfg d" by blast
  with e have "alertFires cfg d \<and>
      e = ReporterAlert (fullOffender cfg d) (readThreshold cfg) (writeThreshold cfg)"
    by (simp add: alertBody_eq split: if_splits)
  with k d show "\<exists>k d. k \<in> set ks \<and> delta k = Some d \<and> alertFires cfg d \<and>
      e = ReporterAlert (fullOffender cfg d) (readThreshold cfg) (writeThreshold cfg)"
    by blast
next
  assume "\<exists>k d. k \<in> set ks \<and> delta k = Some d \<and> alertFires cfg d \<and>
      e = ReporterAlert (fullOffender cfg d) (readThreshold cfg) (writeThreshold cfg)"
  then obtain k d where k: "k \<in> set ks" "delta k = Some d" "alertFires cfg d"
    "e = ReporterAlert (fullOffender cfg d) (readThreshold cfg) (writeThreshold cfg)"
    by blast
  with assms have "estimatesFit cfg d" by blast
  with k show "e \<in> set (alertLoop cfg delta ks)"
    by (force simp add: alertLoop_def alertBody_eq)
qed

text \<open>
  Every alert of a tick carries the normalized text of the current snapshot's entry: the
  entries of the delta mapping have no sample, whatever the snapshot held.
\<close>

lemma tick_alert_text:
  assumes "ReporterAlert off rt wt \<in> set (snd (tick cfg prev (Inr cur) ks))"
  shows "\<exists>k v. cur k = Some v \<and> Text off = DigestText v"
proof -
  from assms have "ReporterAlert off rt wt \<in> set (alertLoop cfg (deltaSnap prev cur) ks)"
    by (simp add: tick_def)
  then obtain k d where d: "deltaSnap prev cur k = Some d"
    and e: "ReporterAlert off rt wt \<in> set (alertBody cfg d)"
    using alertLoop_source by blast
  from d have "QuerySample d = zeroNullString"
    by (rule deltaSnap_sample_dropped)
  with e have t: "Text off = DigestText d"
    by (auto simp add: alertBody_def Let_def zeroNullString_def split: if_splits)
  from d obtain v where "cur k = Some v" "DigestText d = DigestText v"
    by (auto simp add: deltaSnap_def Let_def split: option.splits if_splits)
  with t show ?thesis by auto
qed

text \<open>
  C1, on the code: a digest whose snapshot row holds a captured sample (non-null, non-empty)
  and that crosses the read threshold is reported with its normalized text, not with the
  sample. \<open>deltaSnap\<close> does not copy \<open>QuerySample\<close> into the delta entry, so the preference
  for the sample in \<open>Run\<close> never applies.
\<close>

theorem tick_reports_digest_text_not_sample:
  "displayText statHeavy = ''SELECT * FROM t WHERE a = 42'' \<and>
   tick cfg1MiB Map.empty (Inr [''d1'' \<mapsto> statHeavy]) [''d1''] =
     ([''d1'' \<mapsto> statHeavy],
      [ReporterAlert
         \<lparr>ODigest = ''d1'', Text = ''SELECT * FROM t WHERE a = ?'', BytesRead = 1180000,
          BytesWrite = 0, RowsExamined = 5900, RowsSent = 0, Count = 3\<rparr>
         1048576 1048576])"
  by (simp add: tick_def alertLoop_def alertBody_def deltaSnap_def displayText_def
      statHeavy_def cfg1MiB_def zeroNullString_def)

text \<open>
  C2, as stated: an alert is issued if and only if a threshold is reached, the estimates
  being the integer products. It fails in two ways. With a read threshold of zero, a delta
  entry with no rows examined and none sent reaches it (\<open>0 \<ge> 0\<close>), and no alert is
  issued: the loop skips an entry whose two estimates are zero. And with
  \<open>2 ^ 63 + 1\<close> rows examined at 2 bytes a row the estimate is \<open>2 ^ 64 + 2\<close>, far above
  the threshold of 1 MiB, and no alert is issued: the \<open>uint64\<close> product in the loop is 2.
\<close>

theorem alert_iff_thresholds_counterexample:
  "deltaSnap Map.empty [''d2'' \<mapsto> statSet] ''d2'' = Some statSet \<and>
   thresholdReached cfgZeroRead statSet \<and>
   alertBody cfgZeroRead statSet = [] \<and>
   snd (tick cfgZeroRead Map.empty (Inr [''d2'' \<mapsto> statSet]) [''d2'']) = [] \<and>
   deltaSnap Map.empty [''d4'' \<mapsto> statHuge] ''d4'' = Some statHuge \<and>
   estimatedBytesRead cfgAvg2 statHuge = 18446744073709551618 \<and>
   thresholdReached cfgAvg2 statHuge \<and>
   alertBody cfgAvg2 statHuge = [] \<and>
   snd (tick cfgAvg2 Map.empty (Inr [''d4'' \<mapsto> statHuge]) [''d4'']) = []"
  by (simp add: tick_def alertLoop_def alertBody_def deltaSnap_def thresholdReached_def
      estimatedBytesRead_def estimatedBytesWritten_def statSet_def cfgZeroRead_def
      statHuge_def cfgAvg2_def)

text \<open>
  C2, amended: for every delta entry of an interval whose two estimates (the integer
  products rows times average bytes per row) are both below \<open>2 ^ 64\<close>, an alert is issued
  if and only if the estimates are not both zero and
  \<open>estimatedBytesRead \<ge> readThreshold\<close> or \<open>estimatedBytesWritten \<ge> writeThreshold\<close>
  (independent thresholds, logical or); when it qualifies the alert is issued once, with
  all seven fields of the offender set, the two byte fields holding the estimates: the
  alerts of a visit of the delta mapping are as many as its qualifying keys, and they are
  the offenders of the qualifying entries. In particular 5900 rows examined at 200 bytes a
  row (1,180,000 bytes) against a read threshold of 1,048,576 fire an alert although the
  estimated bytes written are zero. Nothing is said of an entry with an estimate of
  \<open>2 ^ 64\<close> or more.
\<close>

theorem alert_iff_thresholds:
  "(estimatesFit cfg d \<longrightarrow>
      alertBody cfg d =
        (if alertFires cfg d
         then [ReporterAlert (fullOffender cfg d) (readThreshold cfg) (writeThreshold cfg)]
         else []) \<and>
      unat (BytesRead (fullOffender cfg d)) = estimatedBytesRead cfg d \<and>
      unat (BytesWrite (fullOffender cfg d)) = estimatedBytesWritten cfg d) \<and>
   (distinct ks \<and> dom delta \<subseteq> set ks \<and> (\<forall>k d. delta k = Some d \<longrightarrow> estimatesFit cfg d) \<longrightarrow>
      length (alertLoop cfg delta ks) = card {k. \<exists>d. delta k = Some d \<and> alertFires cfg d}) \<and>
   ((\<forall>k d. delta k = Some d \<longrightarrow> estimatesFit cfg d) \<longrightarrow>
      (e \<in> set (alertLoop cfg delta ks) \<longleftrightarrow>
        (\<exists>k d. k \<in> set ks \<and> delta k = Some d \<and> alertFires cfg d \<and>
               e = ReporterAlert (fullOffender cfg d) (readThreshold cfg) (writeThreshold cfg)))) \<and>
   estimatedBytesRead cfg1MiB
      \<lparr>Digest = ''d1'', DigestText = ''SELECT ?'', QuerySample = zeroNullString,
       CountStar = 1, SumRowsExam = 5900, SumRowsSent = 0, SumRowsAff = 0\<rparr> = 1180000 \<and>
   alertBody cfg1MiB
      \<lparr>Digest = ''d1'', DigestText = ''SELECT ?'', QuerySample = zeroNullString,
       CountStar = 1, SumRowsExam = 5900, SumRowsSent = 0, SumRowsAff = 0\<rparr> =
     [ReporterAlert
        \<lparr>ODigest = ''d1'', Text = ''SELECT ?'', BytesRead = 1180000, BytesWrite = 0,
         RowsExamined = 5900, RowsSent = 0, Count = 1\<rparr>
        1048576 1048576]"
proof (intro conjI impI)
  assume f: "estimatesFit cfg d"
  show "alertBody cfg d =
     (if alertFires cfg d
      then [ReporterAlert (fullOffender cfg d) (readThreshold cfg) (writeThreshold cfg)]
      else [])"
    using f by (rule alertBody_eq)
  show "unat (BytesRead (fullOffender cfg d)) = estimatedBytesRead cfg d"
    using estimate_words(1) [OF f] by (simp add: fullOffender_words)
  show "unat (BytesWrite (fullOffender cfg d)) = estimatedBytesWritten cfg d"
    using estimate_words(2) [OF f] by (simp add: fullOffender_words)
next
  assume "distinct ks \<and> dom delta \<subseteq> set ks \<and> (\<forall>k d. delta k = Some d \<longrightarrow> estimatesFit cfg d)"
  then show "length (alertLoop cfg delta ks) =
      card {k. \<exists>d. delta k = Some d \<and> alertFires cfg d}"
    by (simp add: alertLoop_card)
next
  assume "\<forall>k d. delta k = Some d \<longrightarrow> estimatesFit cfg d"
  then show "e \<in> set (alertLoop cfg delta ks) \<longleftrightarrow>
      (\<exists>k d. k \<in> set ks \<and> delta k = Some d \<and> alertFires cfg d \<and>
             e = ReporterAlert (fullOffender cfg d) (readThreshold cfg) (writeThreshold cfg))"
    by (rule alertLoop_member)
next
  show "estimatedBytesRead cfg1MiB
      \<lparr>Digest = ''d1'', DigestText = ''SELECT ?'', QuerySample = zeroNullString,
       CountStar = 1, SumRowsExam = 5900, SumRowsSent = 0, SumRowsAff = 0\<rparr> = 1180000"
    by (simp add: estimatedBytesRead_def cfg1MiB_def)
next
  show "alertBody cfg1MiB
      \<lparr>Digest = ''d1'', DigestText = ''SELECT ?'', QuerySample = zeroNullString,
       CountStar = 1, SumRowsExam = 5900, SumRowsSent = 0, SumRowsAff = 0\<rparr> =
     [ReporterAlert
        \<lparr>ODigest = ''d1'', Text = ''SELECT ?'', BytesRead = 1180000, BytesWrite = 0,
         RowsExamined = 5900, RowsSent = 0, Count = 1\<rparr>
        1048576 1048576]"
    by (simp add: alertBody_def cfg1MiB_def zeroNullString_def)
qed

theorem alert_iff_thresholds_witness:
  "deltaSnap Map.empty [''d1'' \<mapsto> statHeavy, ''d2'' \<mapsto> statSet] =
     [''d1'' \<mapsto> deltaHeavy, ''d2'' \<mapsto> statSet] \<and>
   distinct [''d1'', ''d2''] \<and>
   dom [''d1'' \<mapsto> deltaHeavy, ''d2'' \<mapsto> statSet] \<subseteq> set [''d1'', ''d2''] \<and>
   estimatesFit cfg1MiB deltaHeavy \<and> estimatesFit cfg1MiB statSet \<and>
   alertFires cfg1MiB deltaHeavy \<and> \<not> alertFires cfg1MiB statSet \<and>
   alertBody cfg1MiB deltaHeavy =
     [ReporterAlert (fullOffender cfg1MiB deltaHeavy) 1048576 1048576] \<and>
   unat (BytesRead (fullOffender cfg1MiB deltaHeavy)) = 1180000 \<and>
   length (alertLoop cfg1MiB [''d1'' \<mapsto> deltaHeavy, ''d2'' \<mapsto> statSet] [''d1'', ''d2'']) =
     card {k. \<exists>d. [''d1'' \<mapsto> deltaHeavy, ''d2'' \<mapsto> statSet] k = Some d \<and> alertFires cfg1MiB d} \<and>
   length (alertLoop cfg1MiB [''d1'' \<mapsto> deltaHeavy, ''d2'' \<mapsto> statSet] [''d1'', ''d2'']) = 1 \<and>
   ReporterAlert (fullOffender cfg1MiB deltaHeavy) 1048576 1048576 \<in>
     set (alertLoop cfg1MiB [''d1'' \<mapsto> deltaHeavy, ''d2'' \<mapsto> statSet] [''d1'', ''d2''])"
proof -
  have ds: "deltaSnap Map.empty [''d1'' \<mapsto> statHeavy, ''d2'' \<mapsto> statSet] =
     [''d1'' \<mapsto> deltaHeavy, ''d2'' \<mapsto> statSet]"
    by (rule ext) (simp add: deltaSnap_def statHeavy_def statSet_def deltaHeavy_def)
  have fit: "estimatesFit cfg1MiB deltaHeavy" "estimatesFit cfg1MiB statSet"
    by (simp_all add: estimatesFit_def estimatedBytesRead_def estimatedBytesWritten_def
        cfg1MiB_def deltaHeavy_def statSet_def)
  have f: "alertFires cfg1MiB deltaHeavy" and n: "\<not> alertFires cfg1MiB statSet"
    by (simp_all add: alertFires_def thresholdReached_def estimatedBytesRead_def
        estimatedBytesWritten_def cfg1MiB_def deltaHeavy_def statSet_def)
  have er: "estimatedBytesRead cfg1MiB deltaHeavy = 1180000"
    by (simp add: estimatedBytesRead_def cfg1MiB_def deltaHeavy_def)
  have all: "\<forall>k d. [''d1'' \<mapsto> deltaHeavy, ''d2'' \<mapsto> statSet] k = Some d \<longrightarrow> estimatesFit cfg1MiB d"
    using fit by (auto split: if_splits)
  have h: "distinct [''d1'', ''d2''] \<and>
      dom [''d1'' \<mapsto> deltaHeavy, ''d2'' \<mapsto> statSet] \<subseteq> set [''d1'', ''d2''] \<and>
      (\<forall>k d. [''d1'' \<mapsto> deltaHeavy, ''d2'' \<mapsto> statSet] k = Some d \<longrightarrow> estimatesFit cfg1MiB d)"
    using all by auto
  have l: "length (alertLoop cfg1MiB [''d1'' \<mapsto> deltaHeavy, ''d2'' \<mapsto> statSet] [''d1'', ''d2'']) = 1"
    by (simp add: alertLoop_def alertBody_eq fit f n)
  have rt: "readThreshold cfg1MiB = 1048576" "writeThreshold cfg1MiB = 1048576"
    by (simp_all add: cfg1MiB_def)
  note t = alert_iff_thresholds [of cfg1MiB deltaHeavy "[''d1'', ''d2'']"
        "[''d1'' \<mapsto> deltaHeavy, ''d2'' \<mapsto> statSet]"
        "ReporterAlert (fullOffender cfg1MiB deltaHeavy) 1048576 1048576"]
  have a: "alertBody cfg1MiB deltaHeavy =
     [ReporterAlert (fullOffender cfg1MiB deltaHeavy) 1048576 1048576]"
    and b: "unat (BytesRead (fullOffender cfg1MiB deltaHeavy)) = 1180000"
    using t [THEN conjunct1, rule_format, OF fit(1)] f er by (simp_all add: rt)
  have c: "length (alertLoop cfg1MiB [''d1'' \<mapsto> deltaHeavy, ''d2'' \<mapsto> statSet] [''d1'', ''d2'']) =
     card {k. \<exists>d. [''d1'' \<mapsto> deltaHeavy, ''d2'' \<mapsto> statSet] k = Some d \<and> alertFires cfg1MiB d}"
    using t [THEN conjunct2, THEN conjunct1, rule_format, OF h] .
  have m: "ReporterAlert (fullOffender cfg1MiB deltaHeavy) 1048576 1048576 \<in>
     set (alertLoop cfg1MiB [''d1'' \<mapsto> deltaHeavy, ''d2'' \<mapsto> statSet] [''d1'', ''d2''])"
    using t [THEN conjunct2, THEN conjunct2, THEN conjunct1, THEN mp, OF all] f
    by (auto simp add: rt)
  show ?thesis
    using ds h fit f n a b c l m by simp
qed

text \<open>
  C9: when the periodic fetch returns an error, the tick leaves the previous snapshot as it
  was and issues no alert (its only effect is the error log), and the loop goes on from the
  same previous snapshot with the next case; after a successful fetch the previous snapshot
  is the current one, and it is replaced in that case only.
\<close>

theorem fetch_error_keeps_previous:
  "tick cfg prev (Inl e) ks = (prev, [LogError ''fetch snapshot'']) \<and>
   runLoop cfg prev (TickerC (Inl e) ks # rest) =
     (fst (runLoop cfg prev rest), LogError ''fetch snapshot'' # snd (runLoop cfg prev rest)) \<and>
   fst (tick cfg prev (Inr cur) ks) = cur \<and>
   runLoop cfg prev (TickerC (Inr cur) ks # rest) =
     (fst (runLoop cfg cur rest),
      alertLoop cfg (deltaSnap prev cur) ks @ snd (runLoop cfg cur rest))"
  by (simp add: tick_def split_def Let_def)

text \<open>
  C10: every entry of the delta mapping has a zero rows-affected field, and two pairs of
  snapshots that are equal once the rows-affected counters are erased give the same delta
  mapping and the same alerts.
\<close>

theorem rows_affected_never_observed:
  assumes "map_option (\<lambda>d. d\<lparr>SumRowsAff := 0\<rparr>) \<circ> oldSnap = map_option (\<lambda>d. d\<lparr>SumRowsAff := 0\<rparr>) \<circ> oldSnap'"
      and "map_option (\<lambda>d. d\<lparr>SumRowsAff := 0\<rparr>) \<circ> newSnap = map_option (\<lambda>d. d\<lparr>SumRowsAff := 0\<rparr>) \<circ> newSnap'"
  shows "deltaSnap oldSnap newSnap = deltaSnap oldSnap' newSnap' \<and>
         (deltaSnap oldSnap newSnap k = Some d \<longrightarrow> SumRowsAff d = 0) \<and>
         snd (tick cfg oldSnap (Inr newSnap) ks) = snd (tick cfg oldSnap' (Inr newSnap') ks)"
  using deltaSnap_rows_affected_irrelevant [OF assms] deltaSnap_rows_affected_zero [of oldSnap newSnap k d]
  by (simp add: tick_def)

theorem rows_affected_never_observed_witness:
  "map_option (\<lambda>d. d\<lparr>SumRowsAff := 0\<rparr>) \<circ> [''d3'' \<mapsto> statBefore] =
     map_option (\<lambda>d. d\<lparr>SumRowsAff := 0\<rparr>) \<circ> [''d3'' \<mapsto> statBefore\<lparr>SumRowsAff := 1000\<rparr>] \<and>
   map_option (\<lambda>d. d\<lparr>SumRowsAff := 0\<rparr>) \<circ> [''d3'' \<mapsto> statAfter] =
     map_option (\<lambda>d. d\<lparr>SumRowsAff := 0\<rparr>) \<circ> [''d3'' \<mapsto> statAfter\<lparr>SumRowsAff := 4000\<rparr>] \<and>
   deltaSnap [''d3'' \<mapsto> statBefore] [''d3'' \<mapsto> statAfter] =
     deltaSnap [''d3'' \<mapsto> statBefore\<lparr>SumRowsAff := 1000\<rparr>] [''d3'' \<mapsto> statAfter\<lparr>SumRowsAff := 4000\<rparr>] \<and>
   deltaSnap [''d3'' \<mapsto> statBefore] [''d3'' \<mapsto> statAfter] ''d3'' =
     Some (statAfter\<lparr>CountStar := 3, SumRowsExam := 500, SumRowsSent := 0, SumRowsAff := 0\<rparr>) \<and>
   SumRowsAff (statAfter\<lparr>CountStar := 3, SumRowsExam := 500, SumRowsSent := 0, SumRowsAff := 0\<rparr>) = 0"
proof -
  have a: "map_option (\<lambda>d. d\<lparr>SumRowsAff := 0\<rparr>) \<circ> [''d3'' \<mapsto> statBefore] =
     map_option (\<lambda>d. d\<lparr>SumRowsAff := 0\<rparr>) \<circ> [''d3'' \<mapsto> statBefore\<lparr>SumRowsAff := 1000\<rparr>]"
    by (simp add: fun_eq_iff)
  have b: "map_option (\<lambda>d. d\<lparr>SumRowsAff := 0\<rparr>) \<circ> [''d3'' \<mapsto> statAfter] =
     map_option (\<lambda>d. d\<lparr>SumRowsAff := 0\<rparr>) \<circ> [''d3'' \<mapsto> statAfter\<lparr>SumRowsAff := 4000\<rparr>]"
    by (simp add: fun_eq_iff)
  have c: "deltaSnap [''d3'' \<mapsto> statBefore] [''d3'' \<mapsto> statAfter] ''d3'' =
     Some (statAfter\<lparr>CountStar := 3, SumRowsExam := 500, SumRowsSent := 0, SumRowsAff := 0\<rparr>)"
    by (simp add: deltaSnap_def statBefore_def statAfter_def zeroNullString_def)
  show ?thesis
    using a b c
      rows_affected_never_observed [OF a b, of "''d3''"
        "statAfter\<lparr>CountStar := 3, SumRowsExam := 500, SumRowsSent := 0, SumRowsAff := 0\<rparr>"]
    by simp
qed

section \<open>The ring buffer: results\<close>

lemma sint_small:
  fixes w :: "64 word"
  assumes "unat w < 2 ^ 63"
  shows "sint w = int (unat w)"
proof -
  have "int (unat w) < 2 ^ 63"
    using assms by (metis of_nat_less_iff of_nat_numeral of_nat_power)
  then have "uint w < 2 ^ 63"
    by (simp only: uint_nat)
  moreover have "- (2 ^ 63) \<le> uint w"
    by (rule order_trans [where y = 0]) simp_all
  ultimately have e: "signed_take_bit 63 (uint w) = uint w"
    by (rule signed_take_bit_int_eq_self [rotated])
  have "sint w = signed_take_bit 63 (uint w)"
    by (simp add: sint_uint)
  also have "\<dots> = uint w"
    by (fact e)
  also have "\<dots> = int (unat w)"
    by (rule uint_nat)
  finally show ?thesis .
qed

lemma unat_succ_diff:
  fixes a b :: "64 word"
  assumes "unat (a - b) < 2 ^ 63"
  shows "unat (a + 1 - b) = Suc (unat (a - b))"
proof -
  have eq: "a + 1 - b = 1 + (a - b)" by simp
  have nz: "1 + (a - b) \<noteq> 0"
  proof
    assume "1 + (a - b) = 0"
    then have "a - b = - 1" by (simp add: add_eq_0_iff)
    then have "unat (a - b) = 2 ^ 64 - 1"
      by (simp add: unsigned_minus_1_eq_mask mask_eq_exp_minus_1)
    with assms show False by simp
  qed
  have "unat (1 + (a - b)) = Suc (unat (a - b))"
    using nz by (rule unatSuc)
  then show ?thesis by (simp only: eq)
qed

lemma ringInv_length_bound:
  assumes "ringInv r"
  shows "length (data r) < 2 ^ 63"
proof -
  have "sint (cap r) < 2 ^ 63"
    using sint_lt [of "cap r"] by simp
  moreover have "int (length (data r)) \<le> sint (cap r)"
    using assms unfolding ringInv_def by blast
  ultimately have "int (length (data r)) < 2 ^ 63"
    by linarith
  then show ?thesis
    by (metis of_nat_less_iff of_nat_numeral of_nat_power)
qed

lemma Append_full:
  assumes inv: "ringInv r" and pos: "0 < sint (cap r)"
    and full: "int (length (data r)) = sint (cap r)"
  shows "Append r s = Inr (r\<lparr>data := tl (data r) @ [s], base := base r + 1, next := next r + 1\<rparr>) \<and>
         ringInv (r\<lparr>data := tl (data r) @ [s], base := base r + 1, next := next r + 1\<rparr>)"
proof -
  from pos full obtain x rest where xs: "data r = x # rest"
    by (cases "data r") auto
  have "Append r s = Inr (r\<lparr>data := tl (data r) @ [s], base := base r + 1, next := next r + 1\<rparr>)"
    using full by (simp add: Append_def xs)
  moreover have "ringInv (r\<lparr>data := tl (data r) @ [s], base := base r + 1, next := next r + 1\<rparr>)"
    using inv by (simp add: ringInv_def xs del: of_nat_unat)
  ultimately show ?thesis by simp
qed

lemma Append_room:
  assumes inv: "ringInv r" and room: "int (length (data r)) \<noteq> sint (cap r)"
  shows "Append r s = Inr (r\<lparr>data := data r @ [s], next := next r + 1\<rparr>) \<and>
         ringInv (r\<lparr>data := data r @ [s], next := next r + 1\<rparr>)"
proof -
  have lt: "unat (next r - base r) < 2 ^ 63"
    using ringInv_length_bound [OF inv] inv by (simp add: ringInv_def del: of_nat_unat)
  have "unat (next r + 1 - base r) = Suc (unat (next r - base r))"
    using lt by (rule unat_succ_diff)
  moreover have "int (length (data r)) < sint (cap r)"
    using inv room unfolding ringInv_def by linarith
  ultimately have "ringInv (r\<lparr>data := data r @ [s], next := next r + 1\<rparr>)"
    using inv by (simp add: ringInv_def del: of_nat_unat)
  moreover have "Append r s = Inr (r\<lparr>data := data r @ [s], next := next r + 1\<rparr>)"
    using room by (simp add: Append_def)
  ultimately show ?thesis by simp
qed

lemma drop_shift:
  "drop n xs = map (\<lambda>i. xs ! (i - b)) [b + n ..< b + length xs]"
  by (rule nth_equalityI) auto

text \<open>
  C5, as stated: from every state with \<open>next - base \<le> C\<close> the append succeeds. It fails
  for capacity zero: the empty ring of capacity 0, which \<open>newLogRing 0\<close> builds, satisfies
  the invariant and is at capacity, and the eviction slices an empty slice, which panics.
\<close>

theorem Append_capacity_zero_counterexample:
  "newLogRing 0 = Inr ringZero \<and> ringInv ringZero \<and>
   Append ringZero ''A'' = Inl SliceBoundsOutOfRange"
  by (simp add: newLogRing_def maxAlloc_def ringZero_def ringInv_def Append_def)

text \<open>
  C5, amended: for every ring buffer state of capacity \<open>C \<ge> 1\<close> satisfying
  \<open>next - base \<le> C\<close>, the retained lines numbering \<open>next - base\<close>, the append does not
  fail and preserves the invariant: when the buffer holds \<open>C\<close> lines it evicts the oldest
  (advancing \<open>base\<close> by 1) and then appends, otherwise it appends only, and it always
  advances \<open>next\<close> by exactly 1. \<open>GetFrom\<close> and \<open>Head\<close> return values and leave the ring as
  it is.
\<close>

theorem Append_preserves_ringInv:
  assumes "ringInv r" and "0 < sint (cap r)"
  shows "\<exists>r'. Append r s = Inr r' \<and> ringInv r' \<and> cap r' = cap r \<and> next r' = next r + 1 \<and>
           (if int (length (data r)) = sint (cap r)
            then base r' = base r + 1 \<and> data r' = tl (data r) @ [s]
            else base r' = base r \<and> data r' = data r @ [s])"
proof (cases "int (length (data r)) = sint (cap r)")
  case True
  with Append_full [OF assms True, of s] show ?thesis by simp
next
  case False
  with Append_room [OF assms(1) False, of s] show ?thesis by simp
qed

theorem Append_preserves_ringInv_witness:
  "ringInv ringABCD \<and> 0 < sint (cap ringABCD) \<and>
   Append ringABCD ''E'' = Inr \<lparr>cap = 3, data = [''C'', ''D'', ''E''], base = 2, next = 5\<rparr> \<and>
   ringInv \<lparr>cap = 3, data = [''C'', ''D'', ''E''], base = 2, next = 5\<rparr>"
proof -
  have a: "ringInv ringABCD" and b: "0 < sint (cap ringABCD)"
    by (simp_all add: ringInv_def ringABCD_def)
  have c: "Append ringABCD ''E'' = Inr \<lparr>cap = 3, data = [''C'', ''D'', ''E''], base = 2, next = 5\<rparr>"
    by (simp add: Append_def ringABCD_def)
  show ?thesis
    using a b c Append_preserves_ringInv [OF a b, of "''E''"] by auto
qed

text \<open>
  C6: in a ring whose invariant holds and whose sequence numbers have not wrapped around
  (\<open>base \<le> next\<close>), the line with sequence number \<open>i\<close> is \<open>data ! (i - base)\<close>, and
  \<open>GetFrom seq\<close> returns the lines numbered from \<open>max seq base\<close> up to \<open>next\<close>, in order,
  with \<open>next\<close> as the new cursor; it returns a pair, never an error. With capacity 3 and
  the appends A, B, C, D the ring has \<open>base = 1\<close>, the lines B, C, D and \<open>next = 4\<close>;
  \<open>GetFrom 0\<close> returns B, C, D and \<open>GetFrom 2\<close> returns C, D.
\<close>

theorem GetFrom_returns_retained:
  "(ringInv r \<and> base r \<le> next r \<longrightarrow>
      GetFrom r seq =
        (map (\<lambda>i. data r ! (i - unat (base r))) [max (unat seq) (unat (base r)) ..< unat (next r)],
         next r)) \<and>
   newLogRing 3 = Inr \<lparr>cap = 3, data = [], base = 0, next = 0\<rparr> \<and>
   Appends \<lparr>cap = 3, data = [], base = 0, next = 0\<rparr> [''A'', ''B'', ''C'', ''D''] =
     Inr \<lparr>cap = 3, data = [''B'', ''C'', ''D''], base = 1, next = 4\<rparr> \<and>
   GetFrom \<lparr>cap = 3, data = [''B'', ''C'', ''D''], base = 1, next = 4\<rparr> 0 =
     ([''B'', ''C'', ''D''], 4) \<and>
   GetFrom \<lparr>cap = 3, data = [''B'', ''C'', ''D''], base = 1, next = 4\<rparr> 2 =
     ([''C'', ''D''], 4)"
proof (intro conjI impI)
  assume h: "ringInv r \<and> base r \<le> next r"
  then have inv: "ringInv r" and le: "base r \<le> next r" by simp_all
  have len: "length (data r) = unat (next r) - unat (base r)"
    using inv le by (simp add: ringInv_def unat_sub del: of_nat_unat)
  have ble: "unat (base r) \<le> unat (next r)"
    using le by (simp add: word_le_nat_alt)
  define sq where "sq = (if seq < base r then base r else seq)"
  have sq: "unat sq = max (unat seq) (unat (base r))" and bsq: "base r \<le> sq"
    by (auto simp add: sq_def word_less_nat_alt word_le_nat_alt)
  show "GetFrom r seq =
        (map (\<lambda>i. data r ! (i - unat (base r))) [max (unat seq) (unat (base r)) ..< unat (next r)],
         next r)"
  proof (cases "sq > next r")
    case True
    then have "unat (next r) \<le> max (unat seq) (unat (base r))"
      by (simp add: sq [symmetric] word_less_nat_alt)
    then show ?thesis
      using True by (simp add: GetFrom_def sq_def [symmetric] Let_def)
  next
    case False
    then have sle: "unat sq \<le> unat (next r)"
      by (simp add: word_less_nat_alt)
    have d: "unat (sq - base r) = unat sq - unat (base r)"
      using bsq by (simp add: unat_sub)
    have dl: "unat (sq - base r) \<le> length (data r)"
      using sle by (simp add: d len)
    then have "unat (sq - base r) < 2 ^ 63"
      using ringInv_length_bound [OF inv] by simp
    then have si: "sint (sq - base r) = int (unat (sq - base r))"
      by (rule sint_small)
    have "drop (unat (sq - base r)) (data r) =
          map (\<lambda>i. data r ! (i - unat (base r)))
            [unat (base r) + unat (sq - base r) ..< unat (base r) + length (data r)]"
      by (rule drop_shift)
    moreover have "unat (base r) + unat (sq - base r) = unat sq"
      using bsq by (simp add: d word_le_nat_alt)
    moreover have "unat (base r) + length (data r) = unat (next r)"
      using ble by (simp add: len)
    ultimately have "drop (unat (sq - base r)) (data r) =
          map (\<lambda>i. data r ! (i - unat (base r))) [unat sq ..< unat (next r)]"
      by simp
    then show ?thesis
      using False dl by (simp add: GetFrom_def sq_def [symmetric] Let_def si sq del: of_nat_unat)
  qed
qed (simp_all add: newLogRing_def maxAlloc_def Append_def GetFrom_def)

theorem GetFrom_returns_retained_witness:
  "ringInv ringABCD \<and> base ringABCD \<le> next ringABCD \<and>
   GetFrom ringABCD 0 = ([''B'', ''C'', ''D''], 4) \<and>
   GetFrom ringABCD 3 = ([''D''], 4) \<and>
   GetFrom ringABCD 9 = ([], 4)"
proof -
  have h: "ringInv ringABCD \<and> base ringABCD \<le> next ringABCD"
    by (simp add: ringInv_def ringABCD_def)
  have u: "[Suc 0..<4] = [1, 2, 3]" "[3..<4] = [3::nat]"
    by (simp_all add: upt_rec)
  show ?thesis
    using h
      GetFrom_returns_retained [of ringABCD 0, THEN conjunct1, rule_format, OF h]
      GetFrom_returns_retained [of ringABCD 3, THEN conjunct1, rule_format, OF h]
      GetFrom_returns_retained [of ringABCD 9, THEN conjunct1, rule_format, OF h]
    by (simp add: ringABCD_def u)
qed

section \<open>The broadcaster: results\<close>

lemma registryInv_member:
  assumes "registryInv b" and "ch \<in> set (subs b)"
  shows "ch < made b \<and> (\<exists>c. chans b ch = Some c \<and> \<not> closed c)"
proof -
  from assms have "ch < made b \<and> (case chans b ch of None \<Rightarrow> False | Some c \<Rightarrow> \<not> closed c)"
    by (simp add: registryInv_def list_all_iff)
  then show ?thesis
    by (cases "chans b ch") simp_all
qed

lemma broadcastLoop_result:
  assumes "distinct chs" and "\<forall>ch \<in> set chs. \<exists>c. h ch = Some c \<and> \<not> closed c"
  shows "broadcastLoop message chs h =
     Inr (\<lambda>ch. case h ch of
                 None \<Rightarrow> None
               | Some c \<Rightarrow> Some (if ch \<in> set chs \<and> length (buf c) < chanCap c
                                 then c\<lparr>buf := buf c @ [message]\<rparr> else c))"
  using assms
proof (induction chs arbitrary: h)
  case Nil
  show ?case
    by (simp add: fun_eq_iff split: option.split)
next
  case (Cons x chs)
  from Cons.prems obtain c where c: "h x = Some c" "\<not> closed c"
    by auto
  define h1 where "h1 = (if length (buf c) < chanCap c
                         then h(x \<mapsto> c\<lparr>buf := buf c @ [message]\<rparr>) else h)"
  have send: "trySend x message h = Inr h1"
    using c by (simp add: trySend_def h1_def)
  have other: "\<And>ch. ch \<noteq> x \<Longrightarrow> h1 ch = h ch"
    by (simp add: h1_def)
  have x: "x \<notin> set chs" and d: "distinct chs"
    using Cons.prems(1) by simp_all
  have "\<forall>ch \<in> set chs. \<exists>c. h1 ch = Some c \<and> \<not> closed c"
    using Cons.prems(2) x other by (metis list.set_intros(2))
  then have "broadcastLoop message chs h1 =
     Inr (\<lambda>ch. case h1 ch of
                 None \<Rightarrow> None
               | Some c \<Rightarrow> Some (if ch \<in> set chs \<and> length (buf c) < chanCap c
                                 then c\<lparr>buf := buf c @ [message]\<rparr> else c))"
    using d by (rule Cons.IH [rotated])
  moreover have "(\<lambda>ch. case h1 ch of
                 None \<Rightarrow> None
               | Some c \<Rightarrow> Some (if ch \<in> set chs \<and> length (buf c) < chanCap c
                                 then c\<lparr>buf := buf c @ [message]\<rparr> else c)) =
        (\<lambda>ch. case h ch of
                 None \<Rightarrow> None
               | Some c \<Rightarrow> Some (if ch \<in> set (x # chs) \<and> length (buf c) < chanCap c
                                 then c\<lparr>buf := buf c @ [message]\<rparr> else c))"
  proof (rule ext)
    fix ch
    show "(case h1 ch of
                 None \<Rightarrow> None
               | Some c \<Rightarrow> Some (if ch \<in> set chs \<and> length (buf c) < chanCap c
                                 then c\<lparr>buf := buf c @ [message]\<rparr> else c)) =
        (case h ch of
                 None \<Rightarrow> None
               | Some c \<Rightarrow> Some (if ch \<in> set (x # chs) \<and> length (buf c) < chanCap c
                                 then c\<lparr>buf := buf c @ [message]\<rparr> else c))"
    proof (cases "ch = x")
      case True
      then show ?thesis using c x by (simp add: h1_def)
    next
      case False
      then show ?thesis by (simp add: other split: option.split)
    qed
  qed
  ultimately show ?case
    by (simp add: send)
qed

lemma registryInv_initial: "registryInv NewLogStreamBroadcaster"
  by (simp add: registryInv_def NewLogStreamBroadcaster_def)

lemma unsubscribe_absent:
  "ch \<notin> set (subs b) \<Longrightarrow> unsubscribe ch b = Inr b"
  by (simp add: unsubscribe_def)

lemma unsubscribeTimes_absent:
  "ch \<notin> set (subs b) \<Longrightarrow> unsubscribeTimes n ch b = Inr b"
  by (induction n) (simp_all add: unsubscribe_absent)

lemma Subscribe_registryInv:
  assumes "registryInv b"
  shows "registryInv (snd (Subscribe b)) \<and> fst (Subscribe b) \<in> set (subs (snd (Subscribe b))) \<and>
         fst (Subscribe b) \<notin> set (subs b)"
proof -
  have fresh: "made b \<notin> set (subs b)"
    using registryInv_member [OF assms, of "made b"] by auto
  have "list_all (\<lambda>ch. ch < Suc (made b) \<and>
          (case ((chans b)(made b \<mapsto> \<lparr>buf = [], chanCap = 256, closed = False\<rparr>)) ch of
             None \<Rightarrow> False | Some c \<Rightarrow> \<not> closed c)) (subs b)"
    unfolding list_all_iff
  proof
    fix ch assume m: "ch \<in> set (subs b)"
    with fresh have "ch \<noteq> made b" by auto
    then show "ch < Suc (made b) \<and>
          (case ((chans b)(made b \<mapsto> \<lparr>buf = [], chanCap = 256, closed = False\<rparr>)) ch of
             None \<Rightarrow> False | Some c \<Rightarrow> \<not> closed c)"
      using registryInv_member [OF assms m] by auto
  qed
  then show ?thesis
    using assms fresh by (simp add: Subscribe_def Let_def registryInv_def List.insert_def)
qed

lemma unsubscribe_registered:
  assumes inv: "registryInv b" and m: "ch \<in> set (subs b)"
  shows "\<exists>c. chans b ch = Some c \<and> \<not> closed c \<and>
           unsubscribe ch b =
             Inr (b\<lparr>subs := removeAll ch (subs b), chans := (chans b)(ch \<mapsto> c\<lparr>closed := True\<rparr>)\<rparr>) \<and>
           registryInv (b\<lparr>subs := removeAll ch (subs b), chans := (chans b)(ch \<mapsto> c\<lparr>closed := True\<rparr>)\<rparr>)"
proof -
  from registryInv_member [OF inv m] obtain c where c: "chans b ch = Some c" "\<not> closed c"
    by blast
  have u: "unsubscribe ch b =
      Inr (b\<lparr>subs := removeAll ch (subs b), chans := (chans b)(ch \<mapsto> c\<lparr>closed := True\<rparr>)\<rparr>)"
    using m c by (simp add: unsubscribe_def closeChan_def)
  have "list_all (\<lambda>x. x < made b \<and>
          (case ((chans b)(ch \<mapsto> c\<lparr>closed := True\<rparr>)) x of None \<Rightarrow> False | Some c \<Rightarrow> \<not> closed c))
        (removeAll ch (subs b))"
    unfolding list_all_iff
  proof
    fix x assume "x \<in> set (removeAll ch (subs b))"
    then have "x \<in> set (subs b)" and "x \<noteq> ch" by simp_all
    then show "x < made b \<and>
          (case ((chans b)(ch \<mapsto> c\<lparr>closed := True\<rparr>)) x of None \<Rightarrow> False | Some c \<Rightarrow> \<not> closed c)"
      using registryInv_member [OF inv, of x] by auto
  qed
  moreover have "distinct (removeAll ch (subs b))"
    using inv by (simp add: registryInv_def distinct_removeAll)
  ultimately have "registryInv (b\<lparr>subs := removeAll ch (subs b), chans := (chans b)(ch \<mapsto> c\<lparr>closed := True\<rparr>)\<rparr>)"
    by (simp add: registryInv_def)
  with c u show ?thesis by blast
qed

text \<open>
  C7: \<open>Broadcast\<close> tries a non-blocking send on every registered channel: the channels and
  the registry stay as they are except that every registered channel with room gets the
  line at the end of its queue; a registered channel whose queue is full keeps its queue
  (the line is dropped for it only). The call returns normally: no error, no panic.
\<close>

theorem Broadcast_isolates_full_queues:
  assumes "registryInv b"
  shows "\<exists>b'. Broadcast b message = Inr b' \<and> subs b' = subs b \<and> made b' = made b \<and>
           registryInv b' \<and>
           chans b' = (\<lambda>ch. case chans b ch of
                               None \<Rightarrow> None
                             | Some c \<Rightarrow> Some (if ch \<in> set (subs b) \<and> length (buf c) < chanCap c
                                               then c\<lparr>buf := buf c @ [message]\<rparr> else c))"
proof -
  have d: "distinct (subs b)"
    using assms by (simp add: registryInv_def)
  have o: "\<forall>ch \<in> set (subs b). \<exists>c. chans b ch = Some c \<and> \<not> closed c"
    using registryInv_member [OF assms] by blast
  have l: "broadcastLoop message (subs b) (chans b) =
     Inr (\<lambda>ch. case chans b ch of
                 None \<Rightarrow> None
               | Some c \<Rightarrow> Some (if ch \<in> set (subs b) \<and> length (buf c) < chanCap c
                                 then c\<lparr>buf := buf c @ [message]\<rparr> else c))"
    using d o by (rule broadcastLoop_result)
  have "list_all (\<lambda>ch. ch < made b \<and>
          (case (case chans b ch of
                   None \<Rightarrow> None
                 | Some c \<Rightarrow> Some (if ch \<in> set (subs b) \<and> length (buf c) < chanCap c
                                   then c\<lparr>buf := buf c @ [message]\<rparr> else c)) of
             None \<Rightarrow> False | Some c \<Rightarrow> \<not> closed c)) (subs b)"
    unfolding list_all_iff
  proof
    fix ch assume "ch \<in> set (subs b)"
    from registryInv_member [OF assms this]
    show "ch < made b \<and>
          (case (case chans b ch of
                   None \<Rightarrow> None
                 | Some c \<Rightarrow> Some (if ch \<in> set (subs b) \<and> length (buf c) < chanCap c
                                   then c\<lparr>buf := buf c @ [message]\<rparr> else c)) of
             None \<Rightarrow> False | Some c \<Rightarrow> \<not> closed c)"
      by auto
  qed
  then show ?thesis
    using d by (simp add: Broadcast_def l registryInv_def)
qed

theorem Broadcast_isolates_full_queues_witness:
  "registryInv busXY \<and>
   Broadcast busXY ''L'' =
     Inr (busXY\<lparr>chans := [0 \<mapsto> chanFull, 1 \<mapsto> chanRoom\<lparr>buf := [''m1'', ''L'']\<rparr>]\<rparr>)"
proof -
  have i: "registryInv busXY"
    by (simp add: registryInv_def busXY_def chanFull_def chanRoom_def)
  have e: "(\<lambda>ch. case chans busXY ch of
                   None \<Rightarrow> None
                 | Some c \<Rightarrow> Some (if ch \<in> set (subs busXY) \<and> length (buf c) < chanCap c
                                   then c\<lparr>buf := buf c @ [''L'']\<rparr> else c)) =
           [0 \<mapsto> chanFull, 1 \<mapsto> chanRoom\<lparr>buf := [''m1'', ''L'']\<rparr>]"
    by (rule ext) (simp add: busXY_def chanFull_def chanRoom_def)
  from Broadcast_isolates_full_queues [OF i, of "''L''"]
  obtain b' where b': "Broadcast busXY ''L'' = Inr b'" "subs b' = subs busXY"
    "made b' = made busXY"
    "chans b' = [0 \<mapsto> chanFull, 1 \<mapsto> chanRoom\<lparr>buf := [''m1'', ''L'']\<rparr>]"
    unfolding e by blast
  then have "b' = busXY\<lparr>chans := [0 \<mapsto> chanFull, 1 \<mapsto> chanRoom\<lparr>buf := [''m1'', ''L'']\<rparr>]\<rparr>"
    by simp
  with i b'(1) show ?thesis by simp
qed

text \<open>
  C8: the channel \<open>Subscribe\<close> returns is registered, and the unsubscribe function is
  idempotent. Its first call on a state where the channel is registered closes the channel
  and removes it from the registry, so the subscriber count goes down by one; on a state
  where the channel is not registered it changes nothing and does not panic, so any number
  of further calls leaves the state of the first call: no second close of the channel, and
  the count has decreased by exactly one however often the function is called.
\<close>

theorem unsubscribe_idempotent:
  assumes "registryInv b"
  shows "registryInv (snd (Subscribe b)) \<and>
         fst (Subscribe b) \<in> set (subs (snd (Subscribe b))) \<and>
         length (subs (snd (Subscribe b))) = Suc (length (subs b)) \<and>
         (ch \<in> set (subs b) \<longrightarrow>
            (\<exists>b'. unsubscribe ch b = Inr b' \<and> registryInv b' \<and> ch \<notin> set (subs b') \<and>
                  (\<exists>c. chans b' ch = Some c \<and> closed c) \<and>
                  Suc (length (subs b')) = length (subs b) \<and>
                  unsubscribe ch b' = Inr b' \<and>
                  unsubscribeTimes (Suc n) ch b = Inr b')) \<and>
         (ch \<notin> set (subs b) \<longrightarrow> unsubscribe ch b = Inr b)"
proof (intro conjI impI)
  show "registryInv (snd (Subscribe b))"
    and "fst (Subscribe b) \<in> set (subs (snd (Subscribe b)))"
    using Subscribe_registryInv [OF assms] by simp_all
  have "fst (Subscribe b) \<notin> set (subs b)"
    using Subscribe_registryInv [OF assms] by simp
  then show "length (subs (snd (Subscribe b))) = Suc (length (subs b))"
    by (simp add: Subscribe_def Let_def List.insert_def)
next
  assume m: "ch \<in> set (subs b)"
  from unsubscribe_registered [OF assms m] obtain c where
    c: "chans b ch = Some c" "\<not> closed c"
    and u: "unsubscribe ch b =
      Inr (b\<lparr>subs := removeAll ch (subs b), chans := (chans b)(ch \<mapsto> c\<lparr>closed := True\<rparr>)\<rparr>)"
    and i: "registryInv (b\<lparr>subs := removeAll ch (subs b), chans := (chans b)(ch \<mapsto> c\<lparr>closed := True\<rparr>)\<rparr>)"
    by blast
  define b' where "b' = b\<lparr>subs := removeAll ch (subs b), chans := (chans b)(ch \<mapsto> c\<lparr>closed := True\<rparr>)\<rparr>"
  have a: "ch \<notin> set (subs b')"
    by (simp add: b'_def)
  have d: "distinct (subs b)"
    using assms by (simp add: registryInv_def)
  have "length (remove1 ch (subs b)) = length (subs b) - 1"
    using m by (simp add: length_remove1)
  moreover have "length (subs b) > 0"
    using m by (cases "subs b") auto
  ultimately have len: "Suc (length (subs b')) = length (subs b)"
    using d by (simp add: b'_def distinct_remove1_removeAll)
  have "unsubscribe ch b = Inr b' \<and> registryInv b' \<and> ch \<notin> set (subs b') \<and>
        (\<exists>c. chans b' ch = Some c \<and> closed c) \<and>
        Suc (length (subs b')) = length (subs b) \<and>
        unsubscribe ch b' = Inr b' \<and>
        unsubscribeTimes (Suc n) ch b = Inr b'"
    using u i a len unsubscribe_absent [OF a] unsubscribeTimes_absent [OF a, of n]
    by (simp add: b'_def [symmetric]) (simp add: b'_def)
  then show "\<exists>b'. unsubscribe ch b = Inr b' \<and> registryInv b' \<and> ch \<notin> set (subs b') \<and>
        (\<exists>c. chans b' ch = Some c \<and> closed c) \<and>
        Suc (length (subs b')) = length (subs b) \<and>
        unsubscribe ch b' = Inr b' \<and>
        unsubscribeTimes (Suc n) ch b = Inr b'"
    by blast
next
  assume "ch \<notin> set (subs b)"
  then show "unsubscribe ch b = Inr b"
    by (rule unsubscribe_absent)
qed


theorem unsubscribe_idempotent_witness:
  "registryInv busXY \<and> 1 \<in> set (subs busXY) \<and> 7 \<notin> set (subs busXY) \<and>
   unsubscribe 1 busXY =
     Inr (busXY\<lparr>subs := [0], chans := [0 \<mapsto> chanFull, 1 \<mapsto> chanRoom\<lparr>closed := True\<rparr>]\<rparr>) \<and>
   unsubscribe 1 (busXY\<lparr>subs := [0], chans := [0 \<mapsto> chanFull, 1 \<mapsto> chanRoom\<lparr>closed := True\<rparr>]\<rparr>) =
     Inr (busXY\<lparr>subs := [0], chans := [0 \<mapsto> chanFull, 1 \<mapsto> chanRoom\<lparr>closed := True\<rparr>]\<rparr>) \<and>
   unsubscribeTimes (Suc 2) 1 busXY =
     Inr (busXY\<lparr>subs := [0], chans := [0 \<mapsto> chanFull, 1 \<mapsto> chanRoom\<lparr>closed := True\<rparr>]\<rparr>) \<and>
   unsubscribe 7 busXY = Inr busXY \<and>
   fst (Subscribe busXY) = 2 \<and> subs (snd (Subscribe busXY)) = [2, 0, 1]"
proof -
  have i: "registryInv busXY"
    by (simp add: registryInv_def busXY_def chanFull_def chanRoom_def)
  have m: "1 \<in> set (subs busXY)" "7 \<notin> set (subs busXY)"
    by (simp_all add: busXY_def)
  have u: "unsubscribe 1 busXY =
     Inr (busXY\<lparr>subs := [0], chans := [0 \<mapsto> chanFull, 1 \<mapsto> chanRoom\<lparr>closed := True\<rparr>]\<rparr>)"
    by (simp add: unsubscribe_def closeChan_def busXY_def chanRoom_def)
  have s: "fst (Subscribe busXY) = 2" "subs (snd (Subscribe busXY)) = [2, 0, 1]"
    by (simp_all add: Subscribe_def busXY_def Let_def)
  show ?thesis
    using i m u s unsubscribe_idempotent [OF i, of 1 2] unsubscribe_idempotent [OF i, of 7 0]
    by auto
qed

end
